theory Spec2Isabelle
  imports Complex_Main "HOL-Library.Multiset" "HOL-Library.Log_Nat"
begin

section \<open>The colour guessing game of \<open>src/components/color-game.tsx\<close>\<close>

text \<open>
  The component \<open>ColorGame\<close> keeps six pieces of React state and changes them in five
  functions: \<open>generateRandomColor\<close>, \<open>generateSimilarColor\<close>, \<open>resetGame\<close>,
  \<open>startNewGame\<close> and \<open>handleGuess\<close>, plus the two callbacks that \<open>handleGuess\<close> hands
  to \<open>setTimeout\<close>. The embedding below follows the source function by function.

  Numbers. A JavaScript number is an IEEE 754 double. \<open>Math.random()\<close> returns a
  double that is at least 0 and less than 1, and \<open>Math.random() * n\<close> is the exact
  product rounded to the nearest double, ties to even; \<open>Math.floor\<close> is applied to that
  rounded product. The rounding is part of the model (\<open>fl\<close> below). The hues,
  saturations, lightnesses and the score are integers far below \<open>2^53\<close>, where sums and
  remainders of doubles are exact; they are \<open>int\<close>.
\<close>

subsection \<open>Rendering a colour: the template literal of \<open>generateRandomColor\<close>\<close>

text \<open>
  \<open>`hsl(${hue}, ${saturation}%, ${lightness}%)`\<close> converts each number to its decimal
  numeral; a negative integer gets a leading minus sign.
\<close>

definition digit_char :: "nat \<Rightarrow> char" where
  "digit_char d = ''0123456789'' ! d"

function show_nat :: "nat \<Rightarrow> string" where
  "show_nat n =
     (if n < 10 then [digit_char n] else show_nat (n div 10) @ [digit_char (n mod 10)])"
  by pat_completeness auto
termination
  by (relation "measure id") auto

declare show_nat.simps [simp del]

definition show_int :: "int \<Rightarrow> string" where
  "show_int i = (if i < 0 then CHR ''-'' # show_nat (nat (- i)) else show_nat (nat i))"

definition hsl :: "int \<Rightarrow> int \<Rightarrow> int \<Rightarrow> string" where
  "hsl hue saturation lightness =
     ''hsl('' @ show_int hue @ '', '' @ show_int saturation @ ''%, ''
       @ show_int lightness @ ''%)''"

subsection \<open>Doubles and their rounding\<close>

text \<open>
  A double is a real number with a significand of 53 bits, or a multiple of \<open>2^-1074\<close>
  below the least normal double \<open>2^-1022\<close>. \<open>expo x\<close> is the exponent of a positive
  \<open>x\<close>, that is \<open>\<lfloor>log\<^sub>2 x\<rfloor>\<close>, computed from integer bit lengths; \<open>ulp x\<close> is the
  distance of neighbouring doubles at \<open>x\<close>; \<open>fl x\<close> is the double nearest to \<open>x\<close>, the
  one with the even significand when two are equally near. Results of magnitude
  \<open>2^1024\<close> and more, which JavaScript turns into \<open>Infinity\<close>, do not occur here: every
  product and difference the component computes is below 360 in magnitude.
\<close>

definition expo :: "real \<Rightarrow> int" where
  "expo x = (if 1 \<le> x then bitlen \<lfloor>x\<rfloor> - 1 else - bitlen (\<lceil>1 / x\<rceil> - 1))"

definition ulp :: "real \<Rightarrow> real" where
  "ulp x = 2 powi (max (expo \<bar>x\<bar>) (- 1022) - 52)"

definition round_even :: "real \<Rightarrow> int" where
  "round_even y =
     (let f = \<lfloor>y\<rfloor>; d = y - of_int f
      in if d < 1 / 2 then f else if 1 / 2 < d then f + 1 else if even f then f else f + 1)"

definition fl :: "real \<Rightarrow> real" where
  "fl x = (if x = 0 then 0 else of_int (round_even (x / ulp x)) * ulp x)"

definition is_double :: "real \<Rightarrow> bool" where
  "is_double x = (fl x = x)"

definition js_mul :: "real \<Rightarrow> real \<Rightarrow> real" where
  "js_mul a b = fl (a * b)"

definition js_sub :: "real \<Rightarrow> real \<Rightarrow> real" where
  "js_sub a b = fl (a - b)"

definition min_normal :: real where
  "min_normal = 2 powi (- 1022)"

subsection \<open>The random source and the remainder operator\<close>

text \<open>
  \<open>rnd k\<close> is the value returned by the \<open>k\<close>-th call of \<open>Math.random()\<close>; every
  function that draws takes the number of calls made so far and returns the new count.
  \<open>unit_rng\<close> says what the language guarantees of \<open>Math.random()\<close>: a double, at least
  0 and less than 1.
\<close>

type_synonym rng = "nat \<Rightarrow> real"

definition unit_rng :: "rng \<Rightarrow> bool" where
  "unit_rng rnd = (\<forall>k. is_double (rnd k) \<and> 0 \<le> rnd k \<and> rnd k < 1)"

text \<open>JavaScript's \<open>%\<close> truncates: the result has the sign of the dividend.\<close>

definition js_rem :: "int \<Rightarrow> int \<Rightarrow> int" where
  "js_rem a b = sgn a * (\<bar>a\<bar> mod \<bar>b\<bar>)"

subsection \<open>\<open>generateRandomColor\<close> and \<open>generateSimilarColor\<close>\<close>

text \<open>
  \<open>baseHue ?? Math.floor(Math.random() * 360)\<close>: the hue is drawn only when \<open>baseHue\<close>
  is \<open>null\<close>; a base hue of \<open>0\<close> is kept.
\<close>

definition generateRandomColor :: "rng \<Rightarrow> int option \<Rightarrow> nat \<Rightarrow> string \<times> nat" where
  "generateRandomColor rnd baseHue k =
     (let (hue, k1) = (case baseHue of Some h \<Rightarrow> (h, k) | None \<Rightarrow> (\<lfloor>js_mul (rnd k) 360\<rfloor>, Suc k));
          saturation = 70 + \<lfloor>js_mul (rnd k1) 30\<rfloor>;
          lightness = 45 + \<lfloor>js_mul (rnd (Suc k1)) 20\<rfloor>
      in (hsl hue saturation lightness, Suc (Suc k1)))"

definition hueVariation :: "rng \<Rightarrow> nat \<Rightarrow> int" where
  "hueVariation rnd k = \<lfloor>js_mul (rnd k) 30\<rfloor> - 15"

definition generateSimilarColor :: "rng \<Rightarrow> int \<Rightarrow> nat \<Rightarrow> string \<times> nat" where
  "generateSimilarColor rnd baseHue k =
     generateRandomColor rnd (Some (js_rem (baseHue + hueVariation rnd k + 360) 360)) (Suc k)"

subsection \<open>The component's state\<close>

text \<open>
  The six \<open>useState\<close> cells, the count of \<open>Math.random()\<close> calls, and the callbacks
  handed to \<open>setTimeout\<close> that have not run yet. Both callbacks are scheduled with the
  same delay of 1500 ms, so they run in the order in which they were scheduled: the
  pending callbacks form a queue.
\<close>

datatype timer = AdvanceRound | EnableInput

record game =
  targetColor :: string
  colorOptions :: "string list"
  score :: int
  gameStatus :: string
  isAnimating :: bool
  textColor :: string
  draws :: nat
  timers :: "timer list"

definition initial_state :: game where
  "initial_state =
     \<lparr>targetColor = [], colorOptions = [], score = 0, gameStatus = [],
      isAnimating = False, textColor = ''text-gray-800'', draws = 0, timers = []\<rparr>"

text \<open>
  The two feedback messages. Each ends with a symbol outside ASCII, given here by the
  bytes the source file holds.
\<close>

definition correct_message :: string where
  "correct_message =
     ''Correct! Well done! ''
       @ [CHR 0xC3, CHR 0xB0, CHR 0xC5, CHR 0xB8, CHR 0xC5, CHR 0xBD, CHR 0xE2, CHR 0x80, CHR 0xB0]"

definition wrong_message :: string where
  "wrong_message =
     ''Wrong guess! Try again! ''
       @ [CHR 0xC3, CHR 0xB0, CHR 0xC5, CHR 0xB8, CHR 0xCB, CHR 0x9C, CHR 0xC2, CHR 0xA2]"

subsection \<open>\<open>resetGame\<close>\<close>

text \<open>
  The loop \<open>while (options.length < 6)\<close> draws a similar colour and keeps it when
  \<open>options.includes\<close> does not find it. Nothing bounds the number of rounds of the loop:
  with a source that keeps returning colours already kept it never ends, and the model
  then returns \<open>None\<close>.
\<close>

partial_function (option) fill_options ::
  "rng \<Rightarrow> int \<Rightarrow> string list \<Rightarrow> nat \<Rightarrow> (string list \<times> nat) option" where
  "fill_options rnd baseHue options k =
     (if length options < 6 then
        (case generateSimilarColor rnd baseHue k of
           (newColor, k') \<Rightarrow>
             if newColor \<notin> set options
             then fill_options rnd baseHue (options @ [newColor]) k'
             else fill_options rnd baseHue options k')
      else Some (options, k))"

declare fill_options.simps [code]

text \<open>
  \<open>[...options].sort(() => Math.random() - 0.5)\<close>. The sorting algorithm belongs to the
  JavaScript engine, not to this repository, so it is a parameter: it receives the
  comparator (which draws from the random source and ignores the two colours), the
  array and the count of draws. \<open>permuting\<close> is what every engine's sort does whatever the
  comparator answers: it rearranges the array.
\<close>

type_synonym comparator = "string \<Rightarrow> string \<Rightarrow> nat \<Rightarrow> real \<times> nat"

type_synonym sorter = "comparator \<Rightarrow> string list \<Rightarrow> nat \<Rightarrow> string list \<times> nat"

definition permuting :: "sorter \<Rightarrow> bool" where
  "permuting srt = (\<forall>cmp xs k. mset (fst (srt cmp xs k)) = mset xs)"

definition shuffle_comparator :: "rng \<Rightarrow> comparator" where
  "shuffle_comparator rnd a b k = (js_sub (rnd k) (1 / 2), Suc k)"

definition resetGame :: "sorter \<Rightarrow> rng \<Rightarrow> game \<Rightarrow> game option" where
  "resetGame srt rnd g =
     (let baseHue = \<lfloor>js_mul (rnd (draws g)) 360\<rfloor>;
          (newTargetColor, k1) = generateRandomColor rnd (Some baseHue) (Suc (draws g))
      in case fill_options rnd baseHue [newTargetColor] k1 of
           None \<Rightarrow> None
         | Some (options, k2) \<Rightarrow>
             (let (shuffledOptions, k3) = srt (shuffle_comparator rnd) options k2
              in Some (g\<lparr>targetColor := newTargetColor,
                         colorOptions := shuffledOptions,
                         gameStatus := [],
                         isAnimating := False,
                         textColor := ''text-gray-800'',
                         draws := k3\<rparr>)))"

text \<open>The base hue that \<open>resetGame\<close> draws first when called in state \<open>g\<close>.\<close>

definition baseHue_of :: "rng \<Rightarrow> game \<Rightarrow> int" where
  "baseHue_of rnd g = \<lfloor>js_mul (rnd (draws g)) 360\<rfloor>"

subsection \<open>\<open>startNewGame\<close>, \<open>handleGuess\<close> and the timeouts\<close>

definition startNewGame :: "sorter \<Rightarrow> rng \<Rightarrow> game \<Rightarrow> game option" where
  "startNewGame srt rnd g = resetGame srt rnd (g\<lparr>score := 0\<rparr>)"

text \<open>
  \<open>handleGuess\<close> returns nothing; what it did shows in the state. The model also returns
  the branch that ran, named as the specification names the outcomes of a guess. No
  branch of the source validates the colour, so \<open>InvalidColor\<close> names no branch.
\<close>

datatype outcome = Correct | Incorrect | AlreadyResolved | InvalidColor

definition handleGuess :: "string \<Rightarrow> game \<Rightarrow> outcome \<times> game" where
  "handleGuess color g =
     (if isAnimating g then (AlreadyResolved, g)
      else
        (let g1 = g\<lparr>isAnimating := True\<rparr>
         in if color = targetColor g then
              (Correct,
               g1\<lparr>score := score g1 + 1,
                  gameStatus := correct_message,
                  textColor := ''text-green-500'',
                  timers := timers g1 @ [AdvanceRound]\<rparr>)
            else
              (Incorrect,
               g1\<lparr>gameStatus := wrong_message,
                  textColor := ''text-red-500'',
                  timers := timers g1 @ [EnableInput]\<rparr>)))"

text \<open>
  The callback of a pending timeout: after a correct guess it restores the text colour
  and calls \<open>resetGame\<close>; after a wrong guess it restores the text colour and enables the
  buttons again.
\<close>

definition runTimer :: "sorter \<Rightarrow> rng \<Rightarrow> timer \<Rightarrow> game \<Rightarrow> game option" where
  "runTimer srt rnd t g =
     (case t of
        AdvanceRound \<Rightarrow> resetGame srt rnd (g\<lparr>textColor := ''text-gray-800''\<rparr>)
      | EnableInput \<Rightarrow> Some (g\<lparr>textColor := ''text-gray-800'', isAnimating := False\<rparr>))"

text \<open>
  What can happen to the mounted component: a click on a colour button, the oldest
  pending timeout running, a click on the button ``New Game''.
\<close>

datatype event = Guess string | Timeout | NewGame

definition step :: "sorter \<Rightarrow> rng \<Rightarrow> event \<Rightarrow> game \<Rightarrow> game option" where
  "step srt rnd e g =
     (case e of
        Guess color \<Rightarrow> Some (snd (handleGuess color g))
      | Timeout \<Rightarrow>
          (case timers g of
             [] \<Rightarrow> Some g
           | t # ts \<Rightarrow> runTimer srt rnd t (g\<lparr>timers := ts\<rparr>))
      | NewGame \<Rightarrow> startNewGame srt rnd g)"

fun run :: "sorter \<Rightarrow> rng \<Rightarrow> event list \<Rightarrow> game \<Rightarrow> game option" where
  "run srt rnd [] g = Some g"
| "run srt rnd (e # es) g =
     (case step srt rnd e g of None \<Rightarrow> None | Some g' \<Rightarrow> run srt rnd es g')"

text \<open>\<open>useEffect\<close> calls \<open>resetGame\<close> once the component is mounted.\<close>

definition mount :: "sorter \<Rightarrow> rng \<Rightarrow> game option" where
  "mount srt rnd = resetGame srt rnd initial_state"

subsection \<open>Notions used to state the properties\<close>

text \<open>The distance of two hues on the colour circle of 360 degrees.\<close>

definition circular_distance :: "int \<Rightarrow> int \<Rightarrow> int" where
  "circular_distance a b = min ((a - b) mod 360) ((b - a) mod 360)"

text \<open>A round is valid: six candidates, the target among them once, no duplicates.\<close>

definition valid_round :: "game \<Rightarrow> bool" where
  "valid_round g =
     (length (colorOptions g) = 6
      \<and> count_list (colorOptions g) (targetColor g) = 1
      \<and> distinct (colorOptions g))"

text \<open>
  A colour is well formed when it renders a triple within the ranges that the
  specification gives for hue, saturation and lightness.
\<close>

definition in_range :: "int \<Rightarrow> int \<Rightarrow> int \<Rightarrow> bool" where
  "in_range h s l = (0 \<le> h \<and> h < 360 \<and> 70 \<le> s \<and> s < 100 \<and> 45 \<le> l \<and> l < 65)"

definition well_formed :: "string \<Rightarrow> bool" where
  "well_formed c = (\<exists>h s l. in_range h s l \<and> c = hsl h s l)"

text \<open>
  The colour that the loop of \<open>resetGame\<close> draws in its \<open>i\<close>-th round when it starts
  at draw count \<open>k\<close> (each round makes three draws), and the condition that the target
  and the first \<open>n\<close> colours drawn for a round started in state \<open>g\<close> make up at least
  six different colours.
\<close>

definition candidate :: "rng \<Rightarrow> int \<Rightarrow> nat \<Rightarrow> nat \<Rightarrow> string" where
  "candidate rnd baseHue k i = fst (generateSimilarColor rnd baseHue (k + 3 * i))"

definition enough_colors :: "rng \<Rightarrow> game \<Rightarrow> nat \<Rightarrow> bool" where
  "enough_colors rnd g n =
     (6 \<le> card (set (fst (generateRandomColor rnd (Some (baseHue_of rnd g)) (Suc (draws g)))
                      # map (candidate rnd (baseHue_of rnd g) (draws g + 3)) [0..<n])))"

subsection \<open>A concrete random source and a concrete sort\<close>

text \<open>
  Insertion sort driven by the comparator, as one sort an engine may run, and a random
  source that repeats a finite list of values.
\<close>

fun insert_by :: "comparator \<Rightarrow> string \<Rightarrow> string list \<Rightarrow> nat \<Rightarrow> string list \<times> nat" where
  "insert_by cmp x [] k = ([x], k)"
| "insert_by cmp x (y # ys) k =
     (case cmp x y k of
        (c, k') \<Rightarrow>
          if c > 0 then (case insert_by cmp x ys k' of (zs, k'') \<Rightarrow> (y # zs, k''))
          else (x # y # ys, k'))"

fun insertion_sort :: sorter where
  "insertion_sort cmp [] k = ([], k)"
| "insertion_sort cmp (x # xs) k =
     (case insertion_sort cmp xs k of (ys, k') \<Rightarrow> insert_by cmp x ys k')"

definition cycle :: "real list \<Rightarrow> rng" where
  "cycle xs k = xs ! (k mod length xs)"

definition rnd0 :: rng where
  "rnd0 = cycle [569 / 1024, 1 / 2, 1 / 4, 0, 461 / 512, 171 / 512, 205 / 256]"

text \<open>
  The state after mounting with this source and this sort, the state after a click on
  ``New Game'' in that state with a score of 3, and a sequence of clicks and timeouts
  used below. \<open>observe\<close> projects a state to target, score, button state and pending
  timeouts.
\<close>

definition round0 :: game where
  "round0 =
     \<lparr>targetColor = ''hsl(200, 85%, 50%)'',
      colorOptions =
        [''hsl(200, 85%, 50%)'', ''hsl(185, 97%, 51%)'', ''hsl(192, 70%, 63%)'',
         ''hsl(200, 77%, 45%)'', ''hsl(209, 86%, 55%)'', ''hsl(195, 94%, 56%)''],
      score = 0, gameStatus = [], isAnimating = False,
      textColor = ''text-gray-800'', draws = 25, timers = []\<rparr>"

definition round1 :: game where
  "round1 =
     \<lparr>targetColor = ''hsl(324, 80%, 61%)'',
      colorOptions =
        [''hsl(309, 97%, 51%)'', ''hsl(325, 85%, 50%)'', ''hsl(324, 80%, 61%)'',
         ''hsl(333, 86%, 55%)'', ''hsl(316, 70%, 63%)'', ''hsl(319, 94%, 56%)''],
      score = 0, gameStatus = [], isAnimating = False,
      textColor = ''text-gray-800'', draws = 51, timers = []\<rparr>"

text \<open>
  A second source. Its first two values are doubles at which rounding the product
  matters: the exact products \<open>r * 360\<close> and \<open>r * 30\<close> lie just below 181 and 17 and
  round to 181 and 17, so the code computes base hue 181 and saturation 87%, where the
  floors of the exact products would give 180 and 86%. \<open>round2\<close> is the state after
  mounting with this source.
\<close>

definition rnd1 :: rng where
  "rnd1 =
     cycle [1132154906325083 / 2251799813685248, 2552039788843281 / 4503599627370496,
            1 / 2, 1 / 4, 0, 461 / 512, 171 / 512]"

definition round2 :: game where
  "round2 =
     \<lparr>targetColor = ''hsl(181, 87%, 55%)'',
      colorOptions =
        [''hsl(181, 87%, 55%)'', ''hsl(173, 70%, 63%)'', ''hsl(193, 80%, 55%)'',
         ''hsl(181, 77%, 45%)'', ''hsl(176, 85%, 56%)'', ''hsl(183, 85%, 50%)''],
      score = 0, gameStatus = [], isAnimating = False,
      textColor = ''text-gray-800'', draws = 26, timers = []\<rparr>"

definition stale_timer_clicks :: "event list" where
  "stale_timer_clicks =
     [Guess ''hsl(185, 97%, 51%)'', NewGame, Guess ''hsl(324, 80%, 61%)'', Timeout,
      Guess ''hsl(324, 80%, 61%)'']"

definition observe :: "game option \<Rightarrow> (string \<times> int \<times> bool \<times> timer list) option" where
  "observe r = map_option (\<lambda>g. (targetColor g, score g, isAnimating g, timers g)) r"

section \<open>Lemmas\<close>

subsection \<open>The rendering of a colour determines its components\<close>

lemma digit_char_inj:
  assumes "a < 10" and "b < 10" and "digit_char a = digit_char b"
  shows "a = b"
proof -
  have "(''0123456789'' ! a = ''0123456789'' ! b) = (a = b)"
    by (rule nth_eq_iff_index_eq) (use assms in simp_all)
  with assms(3) show ?thesis by (simp only: digit_char_def)
qed

lemma digit_char_digit: "d < 10 \<Longrightarrow> digit_char d \<in> set ''0123456789''"
  unfolding digit_char_def by (rule nth_mem) simp

lemma show_nat_digits: "set (show_nat n) \<subseteq> set ''0123456789''"
proof (induction n rule: show_nat.induct)
  case (1 n)
  show ?case
  proof (cases "n < 10")
    case True
    then show ?thesis
      using digit_char_digit [of n] by (subst show_nat.simps) simp
  next
    case False
    have "n mod 10 < 10" by simp
    then have "digit_char (n mod 10) \<in> set ''0123456789''" by (rule digit_char_digit)
    with False "1.IH" show ?thesis
      by (subst show_nat.simps) simp
  qed
qed

lemma show_nat_nonempty: "show_nat n \<noteq> []"
  by (subst show_nat.simps) simp

lemma show_nat_small: "n < 10 \<Longrightarrow> show_nat n = [digit_char n]"
  by (subst show_nat.simps) simp

lemma show_nat_large:
  "\<not> n < 10 \<Longrightarrow> show_nat n = show_nat (n div 10) @ [digit_char (n mod 10)]"
  by (subst show_nat.simps) simp

lemma show_nat_inj: "show_nat n = show_nat m \<Longrightarrow> n = m"
proof (induction n arbitrary: m rule: show_nat.induct)
  case (1 n)
  show ?case
  proof (cases "n < 10")
    case n: True
    show ?thesis
    proof (cases "m < 10")
      case True
      from "1.prems" have "[digit_char n] = [digit_char m]"
        by (simp only: show_nat_small [OF n] show_nat_small [OF True])
      then show ?thesis using digit_char_inj [OF n True] by simp
    next
      case False
      from "1.prems" have "[digit_char n] = show_nat (m div 10) @ [digit_char (m mod 10)]"
        by (simp only: show_nat_small [OF n] show_nat_large [OF False])
      with show_nat_nonempty [of "m div 10"] show ?thesis by simp
    qed
  next
    case n: False
    show ?thesis
    proof (cases "m < 10")
      case True
      from "1.prems" have "show_nat (n div 10) @ [digit_char (n mod 10)] = [digit_char m]"
        by (simp only: show_nat_large [OF n] show_nat_small [OF True])
      with show_nat_nonempty [of "n div 10"] show ?thesis by simp
    next
      case False
      from "1.prems" have "show_nat (n div 10) @ [digit_char (n mod 10)]
          = show_nat (m div 10) @ [digit_char (m mod 10)]"
        by (simp only: show_nat_large [OF n] show_nat_large [OF False])
      then have eq: "show_nat (n div 10) = show_nat (m div 10)"
        and d: "digit_char (n mod 10) = digit_char (m mod 10)"
        by simp_all
      from "1.IH" [OF n eq] have "n div 10 = m div 10" .
      moreover have "n mod 10 = m mod 10"
        by (rule digit_char_inj [OF _ _ d]) simp_all
      ultimately have "10 * (n div 10) + n mod 10 = 10 * (m div 10) + m mod 10"
        by (simp only:)
      then show ?thesis
        by (simp only: mult_div_mod_eq)
    qed
  qed
qed

lemma show_int_chars: "set (show_int i) \<subseteq> insert CHR ''-'' (set ''0123456789'')"
proof (cases "i < 0")
  case True
  then have "set (show_int i) = insert CHR ''-'' (set (show_nat (nat (- i))))"
    by (simp only: show_int_def if_True list.set)
  also have "\<dots> \<subseteq> insert CHR ''-'' (set ''0123456789'')"
    by (rule insert_mono) (rule show_nat_digits)
  finally show ?thesis .
next
  case False
  then have "set (show_int i) = set (show_nat (nat i))"
    by (simp only: show_int_def if_False)
  also have "\<dots> \<subseteq> insert CHR ''-'' (set ''0123456789'')"
    by (rule subset_insertI2) (rule show_nat_digits)
  finally show ?thesis .
qed

lemma show_int_no_comma: "CHR '','' \<notin> set (show_int i)"
proof
  assume "CHR '','' \<in> set (show_int i)"
  then have "CHR '','' \<in> insert CHR ''-'' (set ''0123456789'')"
    by (rule subsetD [OF show_int_chars])
  then show False by simp
qed

lemma show_int_no_percent: "CHR ''%'' \<notin> set (show_int i)"
proof
  assume "CHR ''%'' \<in> set (show_int i)"
  then have "CHR ''%'' \<in> insert CHR ''-'' (set ''0123456789'')"
    by (rule subsetD [OF show_int_chars])
  then show False by simp
qed

lemma show_nat_no_minus: "hd (show_nat n) \<noteq> CHR ''-''"
proof
  assume m: "hd (show_nat n) = CHR ''-''"
  have "hd (show_nat n) \<in> set (show_nat n)"
    by (rule hd_in_set) (rule show_nat_nonempty)
  then have "hd (show_nat n) \<in> set ''0123456789''"
    by (rule subsetD [OF show_nat_digits])
  then show False unfolding m by simp
qed

lemma show_int_inj: "show_int i = show_int j \<Longrightarrow> i = j"
proof -
  assume eq: "show_int i = show_int j"
  consider "i < 0" "j < 0" | "i < 0" "\<not> j < 0" | "\<not> i < 0" "j < 0" | "\<not> i < 0" "\<not> j < 0"
    by blast
  then show "i = j"
  proof cases
    case 1
    with eq have "nat (- i) = nat (- j)" by (simp add: show_int_def show_nat_inj)
    with 1 show ?thesis by simp
  next
    case 2
    with eq have "CHR ''-'' # show_nat (nat (- i)) = show_nat (nat j)" by (simp add: show_int_def)
    then have "hd (show_nat (nat j)) = CHR ''-''" by (metis list.sel(1))
    with show_nat_no_minus show ?thesis by blast
  next
    case 3
    with eq have "show_nat (nat i) = CHR ''-'' # show_nat (nat (- j))" by (simp add: show_int_def)
    then have "hd (show_nat (nat i)) = CHR ''-''" by simp
    with show_nat_no_minus show ?thesis by blast
  next
    case 4
    with eq have "nat i = nat j" by (simp add: show_int_def show_nat_inj)
    with 4 show ?thesis by simp
  qed
qed

lemma split_at_sep:
  assumes "xs @ c # r = ys @ c # r'" and "c \<notin> set xs" and "c \<notin> set ys"
  shows "xs = ys \<and> r = r'"
  using assms
proof (induction xs arbitrary: ys)
  case Nil
  then show ?case by (cases ys) simp_all
next
  case (Cons x xs)
  show ?case
  proof (cases ys)
    case Nil
    with Cons.prems show ?thesis by simp
  next
    case (Cons y ys')
    with Cons.prems have "xs @ c # r = ys' @ c # r'" "c \<notin> set xs" "c \<notin> set ys'" "x = y"
      by simp_all
    with Cons.IH [of ys'] Cons show ?thesis by simp
  qed
qed

lemma hsl_inj: "hsl h s l = hsl h' s' l' \<Longrightarrow> h = h' \<and> s = s' \<and> l = l'"
proof -
  assume "hsl h s l = hsl h' s' l'"
  then have 1: "show_int h @ CHR '','' # (CHR '' '' # show_int s @ ''%, '' @ show_int l @ ''%)'')
      = show_int h' @ CHR '','' # (CHR '' '' # show_int s' @ ''%, '' @ show_int l' @ ''%)'')"
    by (simp add: hsl_def)
  from split_at_sep [OF 1 show_int_no_comma show_int_no_comma]
  have h: "show_int h = show_int h'"
    and 2: "show_int s @ CHR ''%'' # ('', '' @ show_int l @ ''%)'')
      = show_int s' @ CHR ''%'' # ('', '' @ show_int l' @ ''%)'')"
    by simp_all
  from split_at_sep [OF 2 show_int_no_percent show_int_no_percent]
  have s: "show_int s = show_int s'" and l: "show_int l = show_int l'"
    by simp_all
  from h s l show ?thesis by (simp add: show_int_inj)
qed

lemma hsl_eq_iff: "hsl h s l = hsl h' s' l' \<longleftrightarrow> h = h' \<and> s = s' \<and> l = l'"
  using hsl_inj by blast

text \<open>On operands that are not negative, \<open>%\<close> is the remainder \<open>mod\<close>.\<close>

lemma js_rem_nonneg: "0 \<le> a \<Longrightarrow> 0 < b \<Longrightarrow> js_rem a b = a mod b"
  by (cases "a = 0") (simp_all add: js_rem_def)

subsection \<open>Rounding to a double, and the range of a draw\<close>

text \<open>
  The exponent brackets its argument, rounding moves a number by at most half an \<open>ulp\<close>,
  and a double below 1 is at most \<open>1 - 2^-53\<close>. Hence the rounded product of such a
  double with \<open>n\<close> stays below \<open>n\<close>, and its floor is one of \<open>0, \<dots>, n - 1\<close>.
\<close>

lemma powi_nat: "0 \<le> b \<Longrightarrow> (2::real) powi b = 2 ^ nat b"
  by (simp add: power_int_def)

lemma expo_lower:
  assumes "0 < x"
  shows "2 powi expo x \<le> x"
proof (cases "1 \<le> x")
  case True
  then have m: "0 < \<lfloor>x\<rfloor>" by simp
  from bitlen_bounds [OF m] have b: "2 ^ nat (bitlen \<lfloor>x\<rfloor> - 1) \<le> \<lfloor>x\<rfloor>" ..
  have "1 \<le> bitlen \<lfloor>x\<rfloor>"
    using m bitlen_eq_zero_iff [of "\<lfloor>x\<rfloor>"] bitlen_nonneg [of "\<lfloor>x\<rfloor>"] by linarith
  then have "(2::real) powi expo x = 2 ^ nat (bitlen \<lfloor>x\<rfloor> - 1)"
    using True by (simp add: expo_def power_int_def)
  also have "\<dots> = of_int (2 ^ nat (bitlen \<lfloor>x\<rfloor> - 1))" by simp
  also from b have "\<dots> \<le> of_int \<lfloor>x\<rfloor>" by (rule of_int_le_iff [THEN iffD2])
  also have "\<dots> \<le> x" by simp
  finally show ?thesis .
next
  case False
  with assms have "1 < 1 / x" by simp
  then have n: "0 < \<lceil>1 / x\<rceil> - 1" by linarith
  define b where "b = bitlen (\<lceil>1 / x\<rceil> - 1)"
  from bitlen_bounds [OF n] have "\<lceil>1 / x\<rceil> - 1 < 2 ^ nat b" by (simp add: b_def)
  then have "\<lceil>1 / x\<rceil> \<le> 2 ^ nat b" by simp
  then have "of_int \<lceil>1 / x\<rceil> \<le> (of_int (2 ^ nat b) :: real)" by (rule of_int_le_iff [THEN iffD2])
  then have "1 / x \<le> 2 ^ nat b" by (simp add: ceiling_le_iff)
  with assms have "1 / 2 ^ nat b \<le> x"
    by (simp add: field_simps)
  moreover have "0 \<le> b" by (simp add: b_def bitlen_nonneg)
  then have "(2::real) powi (- b) = 1 / 2 ^ nat b"
    by (simp add: power_int_minus_divide powi_nat)
  moreover from False have "expo x = - b" by (simp add: expo_def b_def)
  ultimately show ?thesis by simp
qed

lemma expo_upper:
  assumes "0 < x"
  shows "x < 2 powi (expo x + 1)"
proof (cases "1 \<le> x")
  case True
  then have m: "0 < \<lfloor>x\<rfloor>" by simp
  from bitlen_bounds [OF m] have "\<lfloor>x\<rfloor> < 2 ^ nat (bitlen \<lfloor>x\<rfloor>)" ..
  then have "\<lfloor>x\<rfloor> + 1 \<le> 2 ^ nat (bitlen \<lfloor>x\<rfloor>)" by simp
  then have "of_int (\<lfloor>x\<rfloor> + 1) \<le> (of_int (2 ^ nat (bitlen \<lfloor>x\<rfloor>)) :: real)"
    by (rule of_int_le_iff [THEN iffD2])
  then have "of_int \<lfloor>x\<rfloor> + 1 \<le> (2 ^ nat (bitlen \<lfloor>x\<rfloor>) :: real)" by simp
  moreover have "x < of_int \<lfloor>x\<rfloor> + 1" by linarith
  ultimately have "x < 2 ^ nat (bitlen \<lfloor>x\<rfloor>)" by linarith
  moreover have "(2::real) powi (expo x + 1) = 2 ^ nat (bitlen \<lfloor>x\<rfloor>)"
    using True bitlen_nonneg [of "\<lfloor>x\<rfloor>"] by (simp add: expo_def power_int_def)
  ultimately show ?thesis by simp
next
  case False
  with assms have "1 < 1 / x" by simp
  then have n: "0 < \<lceil>1 / x\<rceil> - 1" by linarith
  define b where "b = bitlen (\<lceil>1 / x\<rceil> - 1)"
  have b1: "1 \<le> b"
    using n bitlen_eq_zero_iff [of "\<lceil>1 / x\<rceil> - 1"] bitlen_nonneg [of "\<lceil>1 / x\<rceil> - 1"]
    unfolding b_def by linarith
  from bitlen_bounds [OF n] have "2 ^ nat (b - 1) \<le> \<lceil>1 / x\<rceil> - 1" by (simp add: b_def)
  then have "(of_int (2 ^ nat (b - 1)) :: real) \<le> of_int (\<lceil>1 / x\<rceil> - 1)"
    by (rule of_int_le_iff [THEN iffD2])
  moreover have "of_int (\<lceil>1 / x\<rceil> - 1) < 1 / x" by linarith
  ultimately have "2 ^ nat (b - 1) < 1 / x" by simp
  with assms have "x < 1 / 2 ^ nat (b - 1)"
    by (simp add: field_simps)
  moreover from b1 have "(2::real) powi (- b + 1) = 1 / 2 ^ nat (b - 1)"
  proof -
    have "(2::real) powi (- b + 1) = 2 powi (- (b - 1))" by simp
    also from b1 have "\<dots> = 1 / 2 ^ nat (b - 1)"
      by (simp only: power_int_minus_divide) (simp add: powi_nat)
    finally show ?thesis .
  qed
  moreover from False have "expo x = - b" by (simp add: expo_def b_def)
  ultimately show ?thesis by simp
qed

lemma round_even_cases:
  "round_even y = \<lfloor>y\<rfloor> \<and> y - of_int \<lfloor>y\<rfloor> \<le> 1 / 2
   \<or> round_even y = \<lfloor>y\<rfloor> + 1 \<and> 1 / 2 \<le> y - of_int \<lfloor>y\<rfloor>"
  unfolding round_even_def Let_def by (simp only: split: if_split) auto

lemma round_even_le: "of_int (round_even y) \<le> y + 1 / 2"
proof -
  have "of_int \<lfloor>y\<rfloor> \<le> y" by simp
  with round_even_cases [of y] show ?thesis
    by (elim disjE conjE) (simp_all, linarith+)
qed

lemma round_even_ge: "y - 1 / 2 \<le> of_int (round_even y)"
proof -
  have "y < of_int \<lfloor>y\<rfloor> + 1" by linarith
  with round_even_cases [of y] show ?thesis
    by (elim disjE conjE) (simp_all, linarith+)
qed

lemma round_even_nonneg: "0 \<le> y \<Longrightarrow> 0 \<le> round_even y"
  by (auto simp: round_even_def Let_def)

lemma ulp_pos: "0 < ulp x"
  by (simp add: ulp_def)

lemma fl_nonneg: "0 \<le> x \<Longrightarrow> 0 \<le> fl x"
  using ulp_pos [of x] round_even_nonneg [of "x / ulp x"]
  by (simp add: fl_def)

lemma fl_le: "fl x \<le> x + ulp x / 2"
proof (cases "x = 0")
  case True
  with ulp_pos [of x] show ?thesis by (simp add: fl_def)
next
  case False
  from round_even_le [of "x / ulp x"] ulp_pos [of x]
  have "of_int (round_even (x / ulp x)) * ulp x \<le> (x / ulp x + 1 / 2) * ulp x"
    by (intro mult_right_mono) simp_all
  also from ulp_pos [of x] have "\<dots> = x + ulp x / 2"
    by (simp add: field_simps)
  finally show ?thesis using False by (simp add: fl_def)
qed

lemma fl_ge: "x - ulp x / 2 \<le> fl x"
proof (cases "x = 0")
  case True
  with ulp_pos [of x] show ?thesis by (simp add: fl_def)
next
  case False
  from ulp_pos [of x] have "x - ulp x / 2 = (x / ulp x - 1 / 2) * ulp x"
    by (simp add: field_simps)
  also from round_even_ge [of "x / ulp x"] ulp_pos [of x]
  have "\<dots> \<le> of_int (round_even (x / ulp x)) * ulp x"
    by (intro mult_right_mono) simp_all
  finally show ?thesis using False by (simp add: fl_def)
qed

lemma powi_split: "(2::real) powi (a - 52) = 2 powi a * 2 powi (- 52)"
  using power_int_add [of "2::real" a "- 52"] by simp

lemma powi_max_le:
  assumes "(2::real) powi a \<le> x"
  shows "(2::real) powi (max a m) \<le> max x (2 powi m)"
proof (cases "a \<le> m")
  case True
  then have "max a m = m" by simp
  then show ?thesis by (simp only:)
next
  case False
  then have "max a m = a" by simp
  with assms show ?thesis by (simp only:)
qed

lemma ulp_le:
  assumes "0 < x"
  shows "ulp x \<le> max x min_normal * 2 powi (- 52)"
proof -
  from assms have "\<bar>x\<bar> = x" by simp
  then have "ulp x = 2 powi (max (expo x) (- 1022)) * 2 powi (- 52)"
    unfolding ulp_def by (simp only: powi_split)
  also have "\<dots> \<le> max x min_normal * 2 powi (- 52)"
    unfolding min_normal_def
    by (rule mult_right_mono [OF powi_max_le [OF expo_lower [OF assms]]]) simp
  finally show ?thesis .
qed

lemma min_normal_le_half: "min_normal \<le> 1 / 2"
proof -
  have "(2::real) powi (- 1022) \<le> 2 powi (- 1)"
    by (rule power_int_increasing) simp_all
  then show ?thesis unfolding min_normal_def by (simp only: power_int_minus1_right) simp
qed

lemma min_normal_pos: "0 < min_normal"
  unfolding min_normal_def by (rule zero_less_power_int) simp

lemma fl_le_rel:
  assumes "0 < x"
  shows "fl x \<le> x + max x min_normal / 2 ^ 53"
proof -
  have "fl x \<le> x + ulp x / 2" by (rule fl_le)
  also from ulp_le [OF assms] have "ulp x / 2 \<le> max x min_normal * 2 powi (- 52) / 2"
    by simp
  also have "max x min_normal * 2 powi (- 52) / 2 = max x min_normal / 2 ^ 53"
    by simp
  finally show ?thesis by simp
qed

lemma double_below_one:
  assumes "is_double r" and "r < 1"
  shows "r \<le> 1 - 1 / 2 ^ 53"
proof (cases "1 / 2 \<le> r")
  case False
  then show ?thesis by simp
next
  case True
  then have pos: "0 < r" by simp
  from True pos have "1 / r \<le> 2" by (simp add: field_simps)
  moreover from assms(2) pos have "1 < 1 / r" by simp
  ultimately have c: "\<lceil>1 / r\<rceil> = 2" by (simp add: ceiling_eq_iff)
  have b: "bitlen 1 = 1" by (subst compute_bitlen) simp
  from assms(2) c b have e: "expo r = - 1" by (simp add: expo_def)
  from pos have "\<bar>r\<bar> = r" by simp
  with e have u: "ulp r = 1 / 2 ^ 53" by (simp add: ulp_def)
  define k where "k = round_even (r / ulp r)"
  from assms(1) pos have r: "r = of_int k / 2 ^ 53"
    by (simp add: is_double_def fl_def k_def u)
  with assms(2) have "of_int k < (2 ^ 53 :: real)" by simp
  then have "of_int k < (of_int (2 ^ 53) :: real)" by simp
  then have "k < 2 ^ 53" by (simp only: of_int_less_iff)
  then have "k + 1 \<le> 2 ^ 53" by simp
  then have "(of_int (k + 1) :: real) \<le> of_int (2 ^ 53)" by (simp only: of_int_le_iff)
  then have "of_int k \<le> (2 ^ 53 - 1 :: real)" by simp
  then have "of_int k / 2 ^ 53 \<le> ((2 ^ 53 - 1) / 2 ^ 53 :: real)"
    by (rule divide_right_mono) simp
  with r show ?thesis by simp
qed

lemma fl_product_less:
  assumes "0 \<le> r" and "r \<le> 1 - 1 / 2 ^ 53" and "1 \<le> n"
  shows "fl (r * n) < n"
proof (cases "r * n = 0")
  case True
  with assms(3) show ?thesis by (simp add: fl_def)
next
  case False
  define e :: real where "e = 1 / 2 ^ 53"
  have e: "0 < e" "e < 1" by (simp_all add: e_def)
  from assms(1,3) False have pos: "0 < r * n"
    by (metis less_eq_real_def mult_nonneg_nonneg order_trans zero_le_one)
  from assms(2,3) have x: "r * n \<le> (1 - e) * n"
    unfolding e_def by (intro mult_right_mono) simp_all
  from fl_le_rel [OF pos] have f: "fl (r * n) \<le> r * n + max (r * n) min_normal * e"
    by (simp add: e_def)
  show ?thesis
  proof (cases "min_normal \<le> r * n")
    case True
    then have "max (r * n) min_normal = r * n" by simp
    with f have "fl (r * n) \<le> r * n * (1 + e)" by (simp add: algebra_simps)
    also from e have "\<dots> \<le> (1 - e) * n * (1 + e)"
      by (intro mult_right_mono x) simp
    also have "\<dots> = n - e * e * n" by (simp add: algebra_simps)
    also from e assms(3) have "\<dots> < n" by simp
    finally show ?thesis .
  next
    case False
    then have "max (r * n) min_normal = min_normal" by simp
    with f have "fl (r * n) \<le> r * n + min_normal * e" by simp
    also from False have "\<dots> < min_normal + min_normal * e" by simp
    also have "\<dots> = min_normal * (1 + e)" by (simp add: algebra_simps)
    also from min_normal_le_half e have "\<dots> \<le> 1 / 2 * (1 + e)"
      by (intro mult_right_mono) simp_all
    also from e have "\<dots> < 1" by simp
    also note assms(3)
    finally show ?thesis .
  qed
qed

lemma draw_range:
  assumes "unit_rng rnd" and "0 < n"
  shows "0 \<le> \<lfloor>js_mul (rnd k) (real_of_int n)\<rfloor> \<and> \<lfloor>js_mul (rnd k) (real_of_int n)\<rfloor> < n"
proof -
  from assms(1) have r: "is_double (rnd k)" "0 \<le> rnd k" "rnd k < 1"
    by (simp_all add: unit_rng_def)
  from assms(2) have n: "1 \<le> real_of_int n" by simp
  from r(2) n have "0 \<le> rnd k * real_of_int n" by simp
  then have "0 \<le> js_mul (rnd k) (real_of_int n)"
    unfolding js_mul_def by (rule fl_nonneg)
  moreover have "js_mul (rnd k) (real_of_int n) < real_of_int n"
    unfolding js_mul_def
    by (rule fl_product_less [OF r(2) double_below_one [OF r(1) r(3)] n])
  ultimately show ?thesis by (simp add: floor_less_iff)
qed

subsection \<open>An invariant rule for the loop of \<open>resetGame\<close>\<close>

text \<open>
  Whatever holds of the initial array and is kept when a colour not yet present is
  pushed holds of the array the loop returns, which has at least six elements.
\<close>

lemma fill_options_rule:
  assumes ret: "fill_options rnd b options k = Some (res, k')"
    and init: "I options"
    and step: "\<And>opts j. I opts \<Longrightarrow> length opts < 6 \<Longrightarrow>
                 fst (generateSimilarColor rnd b j) \<notin> set opts \<Longrightarrow>
                 I (opts @ [fst (generateSimilarColor rnd b j)])"
  shows "I res \<and> length res \<ge> 6"
proof -
  define P where "P = (\<lambda>(rnd' :: rng) (b' :: int) (opts :: string list) (j :: nat)
      (r :: string list \<times> nat).
        rnd' = rnd \<longrightarrow> b' = b \<longrightarrow> I opts \<longrightarrow> I (fst r) \<and> length (fst r) \<ge> 6)"
  have "P rnd b options k (res, k')"
  proof (rule fill_options.raw_induct [where P = P, OF _ ret])
    fix f and rnd' :: rng and b' :: int and opts :: "string list" and j :: nat
      and r :: "string list \<times> nat"
    assume IH: "\<And>rnd b opts j r. f rnd b opts j = Some r \<Longrightarrow> P rnd b opts j r"
      and body: "(if length opts < 6 then
          (case generateSimilarColor rnd' b' j of
             (newColor, k') \<Rightarrow>
               if newColor \<notin> set opts
               then f rnd' b' (opts @ [newColor]) k'
               else f rnd' b' opts k')
        else Some (opts, j)) = Some r"
    show "P rnd' b' opts j r"
      unfolding P_def
    proof (intro impI)
      assume eq: "rnd' = rnd" "b' = b" and inv: "I opts"
      show "I (fst r) \<and> length (fst r) \<ge> 6"
      proof (cases "length opts < 6")
        case False
        with body inv show ?thesis by auto
      next
        case short: True
        obtain c j' where gen: "generateSimilarColor rnd' b' j = (c, j')"
          by (cases "generateSimilarColor rnd' b' j")
        show ?thesis
        proof (cases "c \<in> set opts")
          case True
          with short gen body have "f rnd' b' opts j' = Some r" by simp
          from IH [OF this] eq inv show ?thesis by (simp add: P_def)
        next
          case False
          with short gen body have "f rnd' b' (opts @ [c]) j' = Some r" by simp
          from IH [OF this] have "P rnd' b' (opts @ [c]) j' r" .
          moreover from step [OF inv short, of j] gen eq False have "I (opts @ [c])"
            by simp
          ultimately show ?thesis using eq by (simp add: P_def)
        qed
      qed
    qed
  qed
  with init show ?thesis by (simp add: P_def)
qed

subsection \<open>The concrete sort permutes, the concrete source is within the unit interval\<close>

lemma insert_by_mset: "mset (fst (insert_by cmp x ys k)) = add_mset x (mset ys)"
proof (induction ys arbitrary: k)
  case Nil
  show ?case by simp
next
  case (Cons y ys)
  obtain c k1 where c: "cmp x y k = (c, k1)"
    by (cases "cmp x y k")
  obtain zs k2 where r: "insert_by cmp x ys k1 = (zs, k2)"
    by (cases "insert_by cmp x ys k1")
  with Cons.IH [of k1] have "mset zs = add_mset x (mset ys)" by simp
  with c r show ?case by simp
qed

lemma insertion_sort_mset: "mset (fst (insertion_sort cmp xs k)) = mset xs"
proof (induction xs arbitrary: k)
  case Nil
  show ?case by simp
next
  case (Cons x xs)
  obtain ys k' where s: "insertion_sort cmp xs k = (ys, k')"
    by (cases "insertion_sort cmp xs k")
  with Cons.IH [of k] have "mset ys = mset xs" by simp
  with s show ?case by (simp add: insert_by_mset)
qed

lemma permuting_insertion_sort: "permuting insertion_sort"
  unfolding permuting_def by (simp add: insertion_sort_mset)

lemma unit_rng_cycle:
  assumes "xs \<noteq> []" and "\<forall>x\<in>set xs. is_double x \<and> 0 \<le> x \<and> x < 1"
  shows "unit_rng (cycle xs)"
proof -
  have "xs ! (k mod length xs) \<in> set xs" for k
    using assms(1) by (intro nth_mem) simp
  with assms(2) show ?thesis
    unfolding unit_rng_def cycle_def by blast
qed

lemmas fl_eval =
  js_mul_def js_sub_def fl_def ulp_def expo_def round_even_def compute_bitlen

lemma rnd0_doubles:
  "is_double (569 / 1024)" "is_double (1 / 2)" "is_double (1 / 4)" "is_double 0"
  "is_double (461 / 512)" "is_double (171 / 512)" "is_double (205 / 256)"
  by (simp_all add: is_double_def fl_eval)

lemma unit_rng_rnd0: "unit_rng rnd0"
  unfolding rnd0_def by (rule unit_rng_cycle) (simp_all add: rnd0_doubles)

lemma rnd1_doubles:
  "is_double (1132154906325083 / 2251799813685248)"
  "is_double (2552039788843281 / 4503599627370496)"
  by (simp_all add: is_double_def fl_eval)

lemma unit_rng_rnd1: "unit_rng rnd1"
  unfolding rnd1_def by (rule unit_rng_cycle) (simp_all add: rnd0_doubles rnd1_doubles)

text \<open>
  Rounding is what the code does: at these two doubles the floor of the rounded product
  is one more than the floor of the exact product, and a sum of two rounded decimals is
  the familiar one.
\<close>

lemma rounded_draws:
  "\<lfloor>js_mul (2552039788843281 / 4503599627370496) 30\<rfloor> = 17"
  "\<lfloor>2552039788843281 / 4503599627370496 * 30 :: real\<rfloor> = 16"
  "\<lfloor>js_mul (1132154906325083 / 2251799813685248) 360\<rfloor> = 181"
  "\<lfloor>1132154906325083 / 2251799813685248 * 360 :: real\<rfloor> = 180"
  "fl (fl (1 / 10) + fl (2 / 10)) = 5404319552844596 / 2 ^ 54"
  by (simp_all add: fl_eval)

subsection \<open>What \<open>resetGame\<close> returns\<close>

lemma generateRandomColor_Some:
  "generateRandomColor rnd (Some h) k =
     (hsl h (70 + \<lfloor>js_mul (rnd k) 30\<rfloor>) (45 + \<lfloor>js_mul (rnd (Suc k)) 20\<rfloor>), Suc (Suc k))"
  by (simp add: generateRandomColor_def)

lemma generateRandomColor_None:
  "generateRandomColor rnd None k =
     (hsl \<lfloor>js_mul (rnd k) 360\<rfloor> (70 + \<lfloor>js_mul (rnd (Suc k)) 30\<rfloor>) (45 + \<lfloor>js_mul (rnd (Suc (Suc k))) 20\<rfloor>),
      Suc (Suc (Suc k)))"
  by (simp add: generateRandomColor_def)

lemma hueVariation_range:
  assumes "unit_rng rnd"
  shows "- 15 \<le> hueVariation rnd k \<and> hueVariation rnd k \<le> 14"
  using draw_range [OF assms, of 30 k] by (simp add: hueVariation_def)

lemma saturation_range:
  assumes "unit_rng rnd"
  shows "70 \<le> 70 + \<lfloor>js_mul (rnd k) 30\<rfloor> \<and> 70 + \<lfloor>js_mul (rnd k) 30\<rfloor> < 100"
  using draw_range [OF assms, of 30 k] by simp

lemma lightness_range:
  assumes "unit_rng rnd"
  shows "45 \<le> 45 + \<lfloor>js_mul (rnd k) 20\<rfloor> \<and> 45 + \<lfloor>js_mul (rnd k) 20\<rfloor> < 65"
  using draw_range [OF assms, of 20 k] by simp

lemma baseHue_range:
  assumes "unit_rng rnd"
  shows "0 \<le> baseHue_of rnd g \<and> baseHue_of rnd g < 360"
  using draw_range [OF assms, of 360 "draws g"] by (simp add: baseHue_of_def)

text \<open>The colour that \<open>generateSimilarColor\<close> returns for a base hue within the circle.\<close>

lemma generateSimilarColor_form:
  assumes "unit_rng rnd" and "0 \<le> b" and "b < 360"
  shows "\<exists>s l. 70 \<le> s \<and> s < 100 \<and> 45 \<le> l \<and> l < 65
           \<and> fst (generateSimilarColor rnd b k) = hsl ((b + hueVariation rnd k) mod 360) s l"
proof -
  from hueVariation_range [OF assms(1), of k] assms(2)
  have "0 \<le> b + hueVariation rnd k + 360" by simp
  then have "js_rem (b + hueVariation rnd k + 360) 360 = (b + hueVariation rnd k) mod 360"
    by (simp add: js_rem_nonneg)
  then have "fst (generateSimilarColor rnd b k)
      = hsl ((b + hueVariation rnd k) mod 360)
          (70 + \<lfloor>js_mul (rnd (Suc k)) 30\<rfloor>) (45 + \<lfloor>js_mul (rnd (Suc (Suc k))) 20\<rfloor>)"
    by (simp add: generateSimilarColor_def generateRandomColor_Some)
  with saturation_range [OF assms(1), of "Suc k"] lightness_range [OF assms(1), of "Suc (Suc k)"]
  show ?thesis by blast
qed

lemma resetGame_SomeE:
  assumes "resetGame srt rnd g = Some g'"
  obtains opts k2 where
    "targetColor g' = hsl (baseHue_of rnd g) (70 + \<lfloor>js_mul (rnd (Suc (draws g))) 30\<rfloor>)
        (45 + \<lfloor>js_mul (rnd (Suc (Suc (draws g)))) 20\<rfloor>)"
    and "fill_options rnd (baseHue_of rnd g) [targetColor g'] (Suc (Suc (Suc (draws g))))
        = Some (opts, k2)"
    and "colorOptions g' = fst (srt (shuffle_comparator rnd) opts k2)"
    and "score g' = score g"
    and "isAnimating g' = False"
    and "timers g' = timers g"
    and "gameStatus g' = []"
proof -
  let ?t = "hsl (baseHue_of rnd g) (70 + \<lfloor>js_mul (rnd (Suc (draws g))) 30\<rfloor>)
        (45 + \<lfloor>js_mul (rnd (Suc (Suc (draws g)))) 20\<rfloor>)"
  from assms obtain opts k2 where
    f: "fill_options rnd (baseHue_of rnd g) [?t] (Suc (Suc (Suc (draws g)))) = Some (opts, k2)"
    by (auto simp: resetGame_def baseHue_of_def generateRandomColor_Some Let_def
        split: option.splits prod.splits)
  with assms have g': "g' = g\<lparr>targetColor := ?t,
        colorOptions := fst (srt (shuffle_comparator rnd) opts k2),
        gameStatus := [], isAnimating := False, textColor := ''text-gray-800'',
        draws := snd (srt (shuffle_comparator rnd) opts k2)\<rparr>"
    by (auto simp: resetGame_def baseHue_of_def generateRandomColor_Some Let_def
        split: option.splits prod.splits)
  show thesis
    by (rule that [of opts k2]) (simp_all add: g' f)
qed

lemma permuting_facts:
  assumes "permuting srt"
  shows "set (fst (srt cmp xs k)) = set xs"
    and "length (fst (srt cmp xs k)) = length xs"
    and "distinct (fst (srt cmp xs k)) = distinct xs"
    and "count_list (fst (srt cmp xs k)) x = count_list xs x"
proof -
  from assms have m: "mset (fst (srt cmp xs k)) = mset xs"
    by (simp add: permuting_def)
  from m show "set (fst (srt cmp xs k)) = set xs" by (rule mset_eq_setD)
  from m show "length (fst (srt cmp xs k)) = length xs" by (rule mset_eq_length)
  from m show "distinct (fst (srt cmp xs k)) = distinct xs" by (rule mset_eq_imp_distinct_iff)
  from m show "count_list (fst (srt cmp xs k)) x = count_list xs x"
    by (metis count_mset)
qed

lemma resetGame_valid:
  assumes "permuting srt" and "resetGame srt rnd g = Some g'"
  shows "valid_round g'"
proof -
  from assms(2) obtain opts k2 where
    f: "fill_options rnd (baseHue_of rnd g) [targetColor g'] (Suc (Suc (Suc (draws g))))
        = Some (opts, k2)"
    and c: "colorOptions g' = fst (srt (shuffle_comparator rnd) opts k2)"
    by (rule resetGame_SomeE)
  let ?I = "\<lambda>xs. distinct xs \<and> length xs \<le> 6 \<and> targetColor g' \<in> set xs"
  have "?I opts \<and> length opts \<ge> 6"
    by (rule fill_options_rule [OF f]) auto
  then have "distinct opts" "length opts = 6" "targetColor g' \<in> set opts" by simp_all
  then have "count_list opts (targetColor g') = 1"
    by (metis count_mset distinct_count_atmost_1)
  with \<open>distinct opts\<close> \<open>length opts = 6\<close> show ?thesis
    unfolding valid_round_def c by (simp add: permuting_facts [OF assms(1)])
qed

lemma resetGame_colors:
  assumes "unit_rng rnd" and "permuting srt" and "resetGame srt rnd g = Some g'"
  shows "\<exists>s l. 70 \<le> s \<and> s < 100 \<and> 45 \<le> l \<and> l < 65
           \<and> targetColor g' = hsl (baseHue_of rnd g) s l"
    and "\<forall>c\<in>set (colorOptions g'). c = targetColor g' \<or>
           (\<exists>s l. 70 \<le> s \<and> s < 100 \<and> 45 \<le> l \<and> l < 65
              \<and> (\<exists>j. c = hsl ((baseHue_of rnd g + hueVariation rnd j) mod 360) s l))"
proof -
  from assms(3) obtain opts k2 where
    t: "targetColor g' = hsl (baseHue_of rnd g) (70 + \<lfloor>js_mul (rnd (Suc (draws g))) 30\<rfloor>)
        (45 + \<lfloor>js_mul (rnd (Suc (Suc (draws g)))) 20\<rfloor>)"
    and f: "fill_options rnd (baseHue_of rnd g) [targetColor g'] (Suc (Suc (Suc (draws g))))
        = Some (opts, k2)"
    and c: "colorOptions g' = fst (srt (shuffle_comparator rnd) opts k2)"
    by (rule resetGame_SomeE)
  from t saturation_range [OF assms(1), of "Suc (draws g)"]
    lightness_range [OF assms(1), of "Suc (Suc (draws g))"]
  show "\<exists>s l. 70 \<le> s \<and> s < 100 \<and> 45 \<le> l \<and> l < 65
           \<and> targetColor g' = hsl (baseHue_of rnd g) s l"
    by blast
  let ?decoy = "\<lambda>c. \<exists>s l. 70 \<le> s \<and> s < 100 \<and> 45 \<le> l \<and> l < 65
      \<and> (\<exists>j. c = hsl ((baseHue_of rnd g + hueVariation rnd j) mod 360) s l)"
  let ?I = "\<lambda>xs. \<forall>c\<in>set xs. c = targetColor g' \<or> ?decoy c"
  have step: "?I (xs @ [fst (generateSimilarColor rnd (baseHue_of rnd g) j)])"
    if "?I xs" for xs j
  proof -
    from baseHue_range [OF assms(1), of g]
    have "0 \<le> baseHue_of rnd g" "baseHue_of rnd g < 360" by simp_all
    from generateSimilarColor_form [OF assms(1) this, of j]
    have "?decoy (fst (generateSimilarColor rnd (baseHue_of rnd g) j))" by blast
    with that show ?thesis by simp
  qed
  have "?I opts \<and> length opts \<ge> 6"
    by (rule fill_options_rule [OF f]) (simp, rule step)
  then show "\<forall>c\<in>set (colorOptions g'). c = targetColor g' \<or> ?decoy c"
    unfolding c by (simp add: permuting_facts [OF assms(2)])
qed

lemma offset_mod_neq:
  fixes b off :: int
  assumes "- 15 \<le> off" and "off \<le> 14"
  shows "(b + off) mod 360 \<noteq> (b + 15) mod 360"
proof
  assume "(b + off) mod 360 = (b + 15) mod 360"
  then have "360 dvd (b + off) - (b + 15)" by (simp only: mod_eq_dvd_iff)
  then have "360 dvd 15 - off" by (simp add: dvd_diff_commute)
  moreover from assms have "0 < 15 - off" "15 - off < 360" by simp_all
  ultimately show False by (meson zdvd_not_zless)
qed

lemma circular_distance_offset:
  fixes b off :: int
  assumes "- 15 \<le> off" and "off \<le> 15"
  shows "circular_distance ((b + off) mod 360) b \<le> 15"
proof -
  have 1: "((b + off) mod 360 - b) mod 360 = off mod 360"
    by (simp add: mod_diff_left_eq)
  have 2: "(b - (b + off) mod 360) mod 360 = (- off) mod 360"
    by (simp add: mod_diff_right_eq)
  show ?thesis
  proof (cases "0 \<le> off")
    case True
    with assms have "off mod 360 = off" by simp
    with assms 1 show ?thesis by (simp add: circular_distance_def min_def)
  next
    case False
    with assms have "(- off) mod 360 = - off" by simp
    with assms 2 show ?thesis by (simp add: circular_distance_def min_def)
  qed
qed

lemma well_formedI: "in_range h s l \<Longrightarrow> well_formed (hsl h s l)"
  unfolding well_formed_def by blast

lemma resetGame_well_formed:
  assumes "unit_rng rnd" and "permuting srt" and "resetGame srt rnd g = Some g'"
  shows "well_formed (targetColor g') \<and> (\<forall>c\<in>set (colorOptions g'). well_formed c)"
proof -
  note b = baseHue_range [OF assms(1), of g]
  from resetGame_colors(1) [OF assms] b have t: "well_formed (targetColor g')"
    by (auto simp: in_range_def intro!: well_formedI)
  have "well_formed c" if "c \<in> set (colorOptions g')" for c
  proof (cases "c = targetColor g'")
    case True
    with t show ?thesis by simp
  next
    case False
    with resetGame_colors(2) [OF assms] that obtain s l j where
      "70 \<le> s" "s < 100" "45 \<le> l" "l < 65"
      and c: "c = hsl ((baseHue_of rnd g + hueVariation rnd j) mod 360) s l"
      by blast
    then have "in_range ((baseHue_of rnd g + hueVariation rnd j) mod 360) s l"
      by (simp add: in_range_def)
    then show ?thesis unfolding c by (rule well_formedI)
  qed
  with t show ?thesis by blast
qed

subsection \<open>When the loop of \<open>resetGame\<close> returns\<close>

text \<open>
  The loop returns as soon as the colours drawn, together with those already kept, make
  up six different colours.
\<close>

lemma generateSimilarColor_draws: "snd (generateSimilarColor rnd b k) = k + 3"
  by (simp add: generateSimilarColor_def generateRandomColor_Some)

lemma candidate_shift: "candidate rnd b k (Suc i) = candidate rnd b (k + 3) i"
  by (simp add: candidate_def add.assoc)

lemma candidates_Suc:
  "set (map (candidate rnd b k) [0..<Suc n])
     = insert (candidate rnd b k 0) (set (map (candidate rnd b (k + 3)) [0..<n]))"
proof -
  have "[0..<Suc n] = 0 # map Suc [0..<n]"
    by (simp only: upt_conv_Cons [of 0 "Suc n"] map_Suc_upt)
  then have "map (candidate rnd b k) [0..<Suc n]
      = candidate rnd b k 0 # map (candidate rnd b (k + 3)) [0..<n]"
    by (simp add: candidate_shift comp_def del: upt_Suc)
  then show ?thesis by (simp del: upt_Suc)
qed

lemma fill_options_returns:
  assumes "6 \<le> card (set options \<union> set (map (candidate rnd b k) [0..<n]))"
  shows "\<exists>r. fill_options rnd b options k = Some r"
  using assms
proof (induction n arbitrary: options k)
  case 0
  then have "6 \<le> card (set options)" by simp
  with card_length [of options] have "\<not> length options < 6" by simp
  then show ?case by (subst fill_options.simps) simp
next
  case (Suc n)
  show ?case
  proof (cases "length options < 6")
    case False
    then show ?thesis by (subst fill_options.simps) simp
  next
    case short: True
    have gen: "generateSimilarColor rnd b k = (candidate rnd b k 0, k + 3)"
      using generateSimilarColor_draws [of rnd b k]
      by (cases "generateSimilarColor rnd b k") (simp add: candidate_def)
    show ?thesis
    proof (cases "candidate rnd b k 0 \<in> set options")
      case True
      then have "set options \<union> set (map (candidate rnd b k) [0..<Suc n])
          = set options \<union> set (map (candidate rnd b (k + 3)) [0..<n])"
        unfolding candidates_Suc by blast
      with Suc.prems have "\<exists>r. fill_options rnd b options (k + 3) = Some r"
        by (intro Suc.IH) (simp del: upt_Suc)
      with short gen True show ?thesis
        by (subst fill_options.simps) simp
    next
      case False
      have "set options \<union> set (map (candidate rnd b k) [0..<Suc n])
          = set (options @ [candidate rnd b k 0]) \<union> set (map (candidate rnd b (k + 3)) [0..<n])"
        unfolding candidates_Suc by simp
      with Suc.prems
      have "\<exists>r. fill_options rnd b (options @ [candidate rnd b k 0]) (k + 3) = Some r"
        by (intro Suc.IH) (simp del: upt_Suc)
      with short gen False show ?thesis
        by (subst fill_options.simps) simp
    qed
  qed
qed

lemma resetGame_returns:
  assumes "enough_colors rnd g n"
  shows "\<exists>g'. resetGame srt rnd g = Some g'"
proof -
  let ?t = "fst (generateRandomColor rnd (Some (baseHue_of rnd g)) (Suc (draws g)))"
  from assms have "6 \<le> card (set [?t]
      \<union> set (map (candidate rnd (baseHue_of rnd g) (draws g + 3)) [0..<n]))"
    by (simp add: enough_colors_def)
  from fill_options_returns [OF this] obtain r where
    "fill_options rnd (baseHue_of rnd g) [?t] (draws g + 3) = Some r" ..
  moreover have "draws g + 3 = Suc (Suc (Suc (draws g)))" by simp
  ultimately have "fill_options rnd (baseHue_of rnd g) [?t] (Suc (Suc (Suc (draws g)))) = Some r"
    by (simp only:)
  then show ?thesis
    by (cases r) (simp add: resetGame_def baseHue_of_def generateRandomColor_Some Let_def
        split: prod.splits)
qed

lemma enough_colors_score [simp]: "enough_colors rnd (g\<lparr>score := n\<rparr>) m = enough_colors rnd g m"
  by (simp add: enough_colors_def baseHue_of_def)

lemma handleGuess_ignored: "isAnimating g \<Longrightarrow> handleGuess color g = (AlreadyResolved, g)"
  by (simp add: handleGuess_def)

subsection \<open>Evaluations at the concrete source\<close>

lemma enough_rnd0: "enough_colors rnd0 initial_state 5"
  by code_simp



lemma mount_round0: "resetGame insertion_sort rnd0 initial_state = Some round0"
  by code_simp

lemma newGame_round1: "startNewGame insertion_sort rnd0 (round0\<lparr>score := 3\<rparr>) = Some round1"
  by code_simp

lemma mount_round2: "resetGame insertion_sort rnd1 initial_state = Some round2"
  by code_simp

lemma decoy_in_round2:
  "''hsl(183, 85%, 50%)'' \<in> set (colorOptions round2)"
  "''hsl(183, 85%, 50%)'' \<noteq> targetColor round2"
  by (simp_all add: round2_def)

lemma run_snoc:
  "run srt rnd (es @ [e]) g =
     (case run srt rnd es g of None \<Rightarrow> None | Some g' \<Rightarrow> step srt rnd e g')"
  by (induction es arbitrary: g) (auto split: option.splits)

lemma clicks_new_game:
  "run insertion_sort rnd0 (take 2 stale_timer_clicks) round0
     = Some (round1\<lparr>timers := [EnableInput]\<rparr>)"
  by code_simp

lemma decoy_in_round0:
  "''hsl(185, 97%, 51%)'' \<in> set (colorOptions round0)"
  "''hsl(185, 97%, 51%)'' \<noteq> targetColor round0"
  by (simp_all add: round0_def)

lemma round0_literal: "targetColor round0 = hsl 200 85 50"
  by code_simp

lemma bad_literal: "''hsl(400, 80%, 50%)'' = hsl 400 80 50"
  by code_simp

lemma well_formed_target_round0: "well_formed (targetColor round0)"
  unfolding well_formed_def round0_literal
  by (intro exI [of _ 200] exI [of _ 85] exI [of _ 50]) (simp add: in_range_def)

lemma not_well_formed_400: "\<not> well_formed ''hsl(400, 80%, 50%)''"
  unfolding well_formed_def bad_literal
  by (auto simp: hsl_eq_iff in_range_def)

section \<open>The properties of the specification\<close>

text \<open>
  C1. Every round that \<open>resetGame\<close> produces, called directly or through \<open>startNewGame\<close>,
  has exactly six candidates, contains the target colour exactly once, and contains no
  two equal candidates. A round is produced whenever the source yields enough different
  colours.
\<close>

theorem generated_round_is_valid:
  assumes "permuting srt"
  shows "(resetGame srt rnd g = Some g' \<longrightarrow> valid_round g')
       \<and> (startNewGame srt rnd g = Some g' \<longrightarrow> valid_round g')
       \<and> (enough_colors rnd g n \<longrightarrow> (\<exists>r. resetGame srt rnd g = Some r \<and> valid_round r))"
proof (intro conjI impI)
  assume "resetGame srt rnd g = Some g'"
  then show "valid_round g'" by (rule resetGame_valid [OF assms])
next
  assume "startNewGame srt rnd g = Some g'"
  then show "valid_round g'" by (simp add: startNewGame_def resetGame_valid [OF assms])
next
  assume "enough_colors rnd g n"
  then obtain r where "resetGame srt rnd g = Some r"
    using resetGame_returns by blast
  with resetGame_valid [OF assms] show "\<exists>r. resetGame srt rnd g = Some r \<and> valid_round r"
    by blast
qed

theorem generated_round_is_valid_witness:
  "permuting insertion_sort
   \<and> resetGame insertion_sort rnd0 initial_state = Some round0
   \<and> startNewGame insertion_sort rnd0 (round0\<lparr>score := 3\<rparr>) = Some round1
   \<and> enough_colors rnd0 initial_state 5
   \<and> valid_round round0 \<and> valid_round round1
   \<and> (\<exists>r. resetGame insertion_sort rnd0 initial_state = Some r \<and> valid_round r)"
  using generated_round_is_valid [OF permuting_insertion_sort, of rnd0 initial_state round0 5]
    generated_round_is_valid [OF permuting_insertion_sort, of rnd0 "round0\<lparr>score := 3\<rparr>" round1]
    permuting_insertion_sort mount_round0 newGame_round1 enough_rnd0
  by simp

text \<open>
  C2 as stated: a malformed colour submitted as a guess is answered with \<open>InvalidColor\<close>
  instead of being compared with the target. The code compares it: the colour
  \<open>hsl(400, 80%, 50%)\<close>, whose hue is out of range, submitted to a pending round is
  answered as a wrong guess.
\<close>

theorem malformed_guess_counterexample:
  "\<not> well_formed ''hsl(400, 80%, 50%)''
   \<and> \<not> isAnimating round0
   \<and> fst (handleGuess ''hsl(400, 80%, 50%)'' round0) = Incorrect
   \<and> fst (handleGuess ''hsl(400, 80%, 50%)'' round0) \<noteq> InvalidColor"
  using not_well_formed_400 by (simp add: handleGuess_def round0_def)

text \<open>
  C2 as amended: \<open>handleGuess\<close> validates nothing and never answers \<open>InvalidColor\<close>; a
  malformed colour submitted to a pending round with a well-formed target is compared
  with the target like any other string and answered as a wrong guess: outcome
  \<open>Incorrect\<close>, score unchanged, the message of a wrong guess shown.
\<close>

theorem guess_is_never_validated:
  "fst (handleGuess color g) \<noteq> InvalidColor
   \<and> (\<not> well_formed color \<longrightarrow> \<not> isAnimating g \<longrightarrow> well_formed (targetColor g) \<longrightarrow>
        fst (handleGuess color g) = Incorrect
        \<and> score (snd (handleGuess color g)) = score g
        \<and> gameStatus (snd (handleGuess color g)) = wrong_message)"
  by (auto simp: handleGuess_def Let_def)

theorem guess_is_never_validated_witness:
  "\<not> well_formed ''hsl(400, 80%, 50%)'' \<and> \<not> isAnimating round0
   \<and> well_formed (targetColor round0)
   \<and> fst (handleGuess ''hsl(400, 80%, 50%)'' round0) = Incorrect
   \<and> score (snd (handleGuess ''hsl(400, 80%, 50%)'' round0)) = score round0"
proof -
  have a: "\<not> isAnimating round0" by (simp add: round0_def)
  from guess_is_never_validated [of "''hsl(400, 80%, 50%)''" round0]
    not_well_formed_400 a well_formed_target_round0
  show ?thesis by blast
qed

text \<open>
  C3. In a pending round (buttons enabled), a guess equal to the target colour is
  answered \<open>Correct\<close> and raises the score by exactly 1.
\<close>

theorem correct_guess_scores_one:
  assumes "\<not> isAnimating g"
  shows "fst (handleGuess (targetColor g) g) = Correct
       \<and> score (snd (handleGuess (targetColor g) g)) = score g + 1
       \<and> gameStatus (snd (handleGuess (targetColor g) g)) = correct_message"
  using assms by (simp add: handleGuess_def Let_def)

theorem correct_guess_scores_one_witness:
  "\<not> isAnimating round0
   \<and> fst (handleGuess ''hsl(200, 85%, 50%)'' round0) = Correct
   \<and> score (snd (handleGuess ''hsl(200, 85%, 50%)'' round0)) = 1"
proof -
  have a: "\<not> isAnimating round0" by (simp add: round0_def)
  have t: "targetColor round0 = ''hsl(200, 85%, 50%)''" by (simp add: round0_def)
  have s: "score round0 = 0" by (simp add: round0_def)
  from correct_guess_scores_one [OF a] a show ?thesis unfolding t s by simp
qed

text \<open>
  C4 says that after a correct guess every further guess is ignored until a new round
  starts, so that the score rises at most once per round. The guard \<open>isAnimating\<close> is
  meant to do this, but the timeout scheduled by a wrong guess is never cancelled. From
  the mounted state: a wrong guess, a click on ``New Game'' (a new round, buttons
  enabled), a correct guess (score 1, buttons disabled), then the stale timeout of the
  wrong guess runs and enables the buttons while the same round is still shown, and the
  same correct guess counts again: score 2 in one round.
\<close>

theorem stale_timeout_double_counts:
  "observe (run insertion_sort rnd0 (take 2 stale_timer_clicks) round0)
     = Some (''hsl(324, 80%, 61%)'', 0, False, [EnableInput])
   \<and> observe (run insertion_sort rnd0 (take 3 stale_timer_clicks) round0)
     = Some (''hsl(324, 80%, 61%)'', 1, True, [EnableInput, AdvanceRound])
   \<and> observe (run insertion_sort rnd0 (take 4 stale_timer_clicks) round0)
     = Some (''hsl(324, 80%, 61%)'', 1, False, [AdvanceRound])
   \<and> observe (run insertion_sort rnd0 (take 5 stale_timer_clicks) round0)
     = Some (''hsl(324, 80%, 61%)'', 2, True, [AdvanceRound, AdvanceRound])"
proof -
  let ?t = "''hsl(324, 80%, 61%)''"
  define g2 where "g2 = round1\<lparr>timers := [EnableInput]\<rparr>"
  define g3 where "g3 = g2\<lparr>isAnimating := True, score := 1, gameStatus := correct_message,
      textColor := ''text-green-500'', timers := [EnableInput, AdvanceRound]\<rparr>"
  define g4 where "g4 = g3\<lparr>timers := [AdvanceRound], textColor := ''text-gray-800'',
      isAnimating := False\<rparr>"
  define g5 where "g5 = g4\<lparr>isAnimating := True, score := 2, gameStatus := correct_message,
      textColor := ''text-green-500'', timers := [AdvanceRound, AdvanceRound]\<rparr>"
  have c3: "take 3 stale_timer_clicks = take 2 stale_timer_clicks @ [Guess ?t]"
    and c4: "take 4 stale_timer_clicks = take 3 stale_timer_clicks @ [Timeout]"
    and c5: "take 5 stale_timer_clicks = take 4 stale_timer_clicks @ [Guess ?t]"
    by (simp_all add: stale_timer_clicks_def)
  have s3: "step insertion_sort rnd0 (Guess ?t) g2 = Some g3"
    by (simp add: step_def handleGuess_def g2_def g3_def round1_def)
  have s4: "step insertion_sort rnd0 Timeout g3 = Some g4"
    by (simp add: step_def runTimer_def g3_def g4_def)
  have s5: "step insertion_sort rnd0 (Guess ?t) g4 = Some g5"
    by (simp add: step_def handleGuess_def g2_def g3_def g4_def g5_def round1_def)
  have r2: "run insertion_sort rnd0 (take 2 stale_timer_clicks) round0 = Some g2"
    unfolding g2_def by (rule clicks_new_game)
  have r3: "run insertion_sort rnd0 (take 3 stale_timer_clicks) round0 = Some g3"
    by (simp only: c3 run_snoc r2 option.case s3)
  have r4: "run insertion_sort rnd0 (take 4 stale_timer_clicks) round0 = Some g4"
    by (simp only: c4 run_snoc r3 option.case s4)
  have r5: "run insertion_sort rnd0 (take 5 stale_timer_clicks) round0 = Some g5"
    by (simp only: c5 run_snoc r4 option.case s5)
  show ?thesis
    unfolding r2 r3 r4 r5
    by (simp add: observe_def g2_def g3_def g4_def g5_def round1_def)
qed

text \<open>
  C5. In a pending round, a guess different from the target colour is answered
  \<open>Incorrect\<close>, leaves the score unchanged and keeps the round: target and candidates
  are the same after the guess, and the timeout it schedules only enables the buttons
  again, with the same round and score.
\<close>

theorem wrong_guess_keeps_round:
  assumes "\<not> isAnimating g" and "color \<noteq> targetColor g"
  shows "fst (handleGuess color g) = Incorrect
       \<and> score (snd (handleGuess color g)) = score g
       \<and> targetColor (snd (handleGuess color g)) = targetColor g
       \<and> colorOptions (snd (handleGuess color g)) = colorOptions g
       \<and> timers (snd (handleGuess color g)) = timers g @ [EnableInput]
       \<and> (\<exists>g2. runTimer srt rnd EnableInput (snd (handleGuess color g)) = Some g2
             \<and> \<not> isAnimating g2 \<and> score g2 = score g
             \<and> targetColor g2 = targetColor g \<and> colorOptions g2 = colorOptions g)"
  using assms by (simp add: handleGuess_def runTimer_def Let_def)

theorem wrong_guess_keeps_round_witness:
  "\<not> isAnimating round0 \<and> ''hsl(185, 97%, 51%)'' \<noteq> targetColor round0
   \<and> fst (handleGuess ''hsl(185, 97%, 51%)'' round0) = Incorrect
   \<and> score (snd (handleGuess ''hsl(185, 97%, 51%)'' round0)) = score round0
   \<and> targetColor (snd (handleGuess ''hsl(185, 97%, 51%)'' round0)) = targetColor round0
   \<and> colorOptions (snd (handleGuess ''hsl(185, 97%, 51%)'' round0)) = colorOptions round0"
proof -
  have a: "\<not> isAnimating round0" by (simp add: round0_def)
  have b: "''hsl(185, 97%, 51%)'' \<noteq> targetColor round0" by (simp add: round0_def)
  from wrong_guess_keeps_round [OF a b, of insertion_sort rnd0] a b show ?thesis by blast
qed

text \<open>
  C6. In a round generated from base hue \<open>b\<close>, the target has hue \<open>b\<close>, and every decoy
  (every candidate other than the target) has hue \<open>(b + off) mod 360\<close> for an offset
  \<open>off\<close> in \<open>[-15,15]\<close>, hence at circular distance at most 15 from \<open>b\<close>. The base hue
  and the offsets are the floors of the rounded products, as the code computes them, for
  every source of doubles in \<open>[0,1)\<close>.
\<close>

theorem decoy_hues_near_base:
  assumes "unit_rng rnd" and "permuting srt" and "resetGame srt rnd g = Some g'"
  shows "(\<exists>s l. targetColor g' = hsl (baseHue_of rnd g) s l)
       \<and> (\<forall>c\<in>set (colorOptions g'). c \<noteq> targetColor g' \<longrightarrow>
            (\<exists>off s l. - 15 \<le> off \<and> off \<le> 15
               \<and> c = hsl ((baseHue_of rnd g + off) mod 360) s l
               \<and> circular_distance ((baseHue_of rnd g + off) mod 360) (baseHue_of rnd g) \<le> 15))"
proof (intro conjI ballI impI)
  from resetGame_colors(1) [OF assms]
  show "\<exists>s l. targetColor g' = hsl (baseHue_of rnd g) s l" by blast
next
  fix c
  assume "c \<in> set (colorOptions g')" and "c \<noteq> targetColor g'"
  with resetGame_colors(2) [OF assms] obtain s l j where
    c: "c = hsl ((baseHue_of rnd g + hueVariation rnd j) mod 360) s l"
    by blast
  from hueVariation_range [OF assms(1), of j]
  have r: "- 15 \<le> hueVariation rnd j" "hueVariation rnd j \<le> 15" by simp_all
  from circular_distance_offset [OF r, of "baseHue_of rnd g"] c r
  show "\<exists>off s l. - 15 \<le> off \<and> off \<le> 15
      \<and> c = hsl ((baseHue_of rnd g + off) mod 360) s l
      \<and> circular_distance ((baseHue_of rnd g + off) mod 360) (baseHue_of rnd g) \<le> 15"
    by blast
qed

theorem decoy_hues_near_base_witness:
  "unit_rng rnd1 \<and> permuting insertion_sort
   \<and> resetGame insertion_sort rnd1 initial_state = Some round2
   \<and> ''hsl(183, 85%, 50%)'' \<in> set (colorOptions round2)
   \<and> ''hsl(183, 85%, 50%)'' \<noteq> targetColor round2
   \<and> (\<exists>s l. targetColor round2 = hsl (baseHue_of rnd1 initial_state) s l)
   \<and> (\<exists>off s l. - 15 \<le> off \<and> off \<le> 15
          \<and> ''hsl(183, 85%, 50%)'' = hsl ((baseHue_of rnd1 initial_state + off) mod 360) s l
          \<and> circular_distance ((baseHue_of rnd1 initial_state + off) mod 360)
               (baseHue_of rnd1 initial_state) \<le> 15)"
proof -
  note th = decoy_hues_near_base [OF unit_rng_rnd1 permuting_insertion_sort mount_round2]
  from th have 1: "\<exists>s l. targetColor round2 = hsl (baseHue_of rnd1 initial_state) s l"
    by (rule conjunct1)
  from th [THEN conjunct2, THEN bspec, OF decoy_in_round2(1), THEN mp, OF decoy_in_round2(2)]
  have 2: "\<exists>off s l. - 15 \<le> off \<and> off \<le> 15
      \<and> ''hsl(183, 85%, 50%)'' = hsl ((baseHue_of rnd1 initial_state + off) mod 360) s l
      \<and> circular_distance ((baseHue_of rnd1 initial_state + off) mod 360)
           (baseHue_of rnd1 initial_state) \<le> 15" .
  show ?thesis
    by (intro conjI unit_rng_rnd1 permuting_insertion_sort mount_round2 decoy_in_round2 1 2)
qed

text \<open>
  C7. Every colour generated has hue in \<open>[0,360)\<close>, saturation in \<open>[70,100)\<close> and
  lightness in \<open>[45,65)\<close>: the colours returned by \<open>generateRandomColor\<close> (with a drawn
  hue or a given hue within the circle) and by \<open>generateSimilarColor\<close>, and the target
  and all candidates of every round. The components are the floors of the rounded
  products, as the code computes them, for every source of doubles in \<open>[0,1)\<close>.
\<close>

theorem generated_colors_in_range:
  assumes "unit_rng rnd"
  shows "well_formed (fst (generateRandomColor rnd None k))
       \<and> (0 \<le> b \<and> b < 360 \<longrightarrow>
            well_formed (fst (generateRandomColor rnd (Some b) k))
            \<and> well_formed (fst (generateSimilarColor rnd b k)))
       \<and> (permuting srt \<longrightarrow> resetGame srt rnd g = Some g' \<longrightarrow>
            well_formed (targetColor g') \<and> (\<forall>c\<in>set (colorOptions g'). well_formed c))"
proof (intro conjI impI)
  from draw_range [OF assms, of 360 k] saturation_range [OF assms, of "Suc k"]
    lightness_range [OF assms, of "Suc (Suc k)"]
  show "well_formed (fst (generateRandomColor rnd None k))"
    unfolding generateRandomColor_None fst_conv
    by (intro well_formedI) (simp add: in_range_def)
next
  assume b: "0 \<le> b \<and> b < 360"
  with saturation_range [OF assms, of k] lightness_range [OF assms, of "Suc k"]
  show "well_formed (fst (generateRandomColor rnd (Some b) k))"
    unfolding generateRandomColor_Some fst_conv
    by (intro well_formedI) (simp add: in_range_def)
  from b generateSimilarColor_form [OF assms, of b k] obtain s l where
    "70 \<le> s" "s < 100" "45 \<le> l" "l < 65"
    and c: "fst (generateSimilarColor rnd b k) = hsl ((b + hueVariation rnd k) mod 360) s l"
    by blast
  then have "in_range ((b + hueVariation rnd k) mod 360) s l"
    by (simp add: in_range_def)
  then show "well_formed (fst (generateSimilarColor rnd b k))"
    unfolding c by (rule well_formedI)
next
  assume "permuting srt" and "resetGame srt rnd g = Some g'"
  with assms show "well_formed (targetColor g')"
    and "\<forall>c\<in>set (colorOptions g'). well_formed c"
    using resetGame_well_formed by blast+
qed

theorem generated_colors_in_range_witness:
  "unit_rng rnd1 \<and> (0::int) \<le> 181 \<and> (181::int) < 360 \<and> permuting insertion_sort
   \<and> resetGame insertion_sort rnd1 initial_state = Some round2
   \<and> ''hsl(183, 85%, 50%)'' \<in> set (colorOptions round2)
   \<and> well_formed (fst (generateRandomColor rnd1 None 0))
   \<and> well_formed (fst (generateRandomColor rnd1 (Some 181) 1))
   \<and> well_formed (fst (generateSimilarColor rnd1 181 1))
   \<and> well_formed (targetColor round2) \<and> well_formed ''hsl(183, 85%, 50%)''"
proof -
  note th0 = generated_colors_in_range [OF unit_rng_rnd1,
      of 0 181 insertion_sort initial_state round2]
  note th1 = generated_colors_in_range [OF unit_rng_rnd1,
      of 1 181 insertion_sort initial_state round2]
  from th0 have 1: "well_formed (fst (generateRandomColor rnd1 None 0))"
    by (rule conjunct1)
  from th1 have 2: "well_formed (fst (generateRandomColor rnd1 (Some 181) 1))
      \<and> well_formed (fst (generateSimilarColor rnd1 181 1))"
    by simp
  from th0 permuting_insertion_sort mount_round2
  have 3: "well_formed (targetColor round2) \<and> (\<forall>c\<in>set (colorOptions round2). well_formed c)"
    by blast
  from 3 decoy_in_round2(1) have 4: "well_formed ''hsl(183, 85%, 50%)''"
    by blast
  from 1 2 3 4 unit_rng_rnd1 permuting_insertion_sort mount_round2 decoy_in_round2(1)
  show ?thesis by simp
qed



text \<open>
  C9. A colour is the string \<open>hsl(h, s%, l%)\<close> of its integer components, and the guess
  is compared with the target as a string; two such strings are equal exactly when the
  three components are equal, so a guess is answered \<open>Correct\<close> exactly when its triple
  is the target's triple.
\<close>

theorem color_equality_is_triple_equality:
  "(hsl h s l = hsl h' s' l') = (h = h' \<and> s = s' \<and> l = l')
   \<and> (\<exists>hue saturation lightness.
         fst (generateRandomColor rnd baseHue k) = hsl hue saturation lightness)
   \<and> (fst (handleGuess (hsl h' s' l') (g\<lparr>targetColor := hsl h s l, isAnimating := False\<rparr>))
         = Correct) = (h' = h \<and> s' = s \<and> l' = l)
   \<and> hsl 200 85 50 = ''hsl(200, 85%, 50%)''"
proof (intro conjI)
  show "(hsl h s l = hsl h' s' l') = (h = h' \<and> s = s' \<and> l = l')"
    by (rule hsl_eq_iff)
  show "\<exists>hue saturation lightness.
      fst (generateRandomColor rnd baseHue k) = hsl hue saturation lightness"
    by (cases baseHue)
      (auto simp: generateRandomColor_None generateRandomColor_Some)
  show "(fst (handleGuess (hsl h' s' l') (g\<lparr>targetColor := hsl h s l, isAnimating := False\<rparr>))
      = Correct) = (h' = h \<and> s' = s \<and> l' = l)"
    by (simp add: handleGuess_def Let_def hsl_eq_iff)
  show "hsl 200 85 50 = ''hsl(200, 85%, 50%)''"
    by code_simp
qed

text \<open>
  C10. The hue offset computed by \<open>generateSimilarColor\<close> is an integer in \<open>[-15,14]\<close>;
  the offset 15 never occurs, so no decoy of a round has hue \<open>(baseHue + 15) mod 360\<close>.
  The offset is the floor of the rounded product \<open>Math.random() * 30\<close> minus 15: rounding
  to the nearest double never lifts the product of a double below 1 and 30 to 30.
\<close>

theorem hue_offset_never_plus_15:
  assumes "unit_rng rnd"
  shows "- 15 \<le> hueVariation rnd k \<and> hueVariation rnd k \<le> 14
       \<and> (permuting srt \<longrightarrow> resetGame srt rnd g = Some g' \<longrightarrow>
            (\<forall>c\<in>set (colorOptions g'). c \<noteq> targetColor g' \<longrightarrow>
               (\<forall>s l. c \<noteq> hsl ((baseHue_of rnd g + 15) mod 360) s l)))"
proof (intro conjI impI ballI allI)
  from hueVariation_range [OF assms, of k]
  show "- 15 \<le> hueVariation rnd k" and "hueVariation rnd k \<le> 14" by simp_all
next
  fix c s l
  assume p: "permuting srt" and r: "resetGame srt rnd g = Some g'"
    and c: "c \<in> set (colorOptions g')" "c \<noteq> targetColor g'"
  with resetGame_colors(2) [OF assms p r] obtain s' l' j where
    c': "c = hsl ((baseHue_of rnd g + hueVariation rnd j) mod 360) s' l'"
    by blast
  from hueVariation_range [OF assms, of j]
  have "(baseHue_of rnd g + hueVariation rnd j) mod 360 \<noteq> (baseHue_of rnd g + 15) mod 360"
    by (intro offset_mod_neq) simp_all
  then show "c \<noteq> hsl ((baseHue_of rnd g + 15) mod 360) s l"
    unfolding c' by (simp add: hsl_eq_iff)
qed

theorem hue_offset_never_plus_15_witness:
  "unit_rng rnd1 \<and> permuting insertion_sort
   \<and> resetGame insertion_sort rnd1 initial_state = Some round2
   \<and> ''hsl(183, 85%, 50%)'' \<in> set (colorOptions round2)
   \<and> ''hsl(183, 85%, 50%)'' \<noteq> targetColor round2
   \<and> - 15 \<le> hueVariation rnd1 1 \<and> hueVariation rnd1 1 \<le> 14
   \<and> (\<forall>s l. ''hsl(183, 85%, 50%)'' \<noteq> hsl ((baseHue_of rnd1 initial_state + 15) mod 360) s l)"
proof -
  note th = hue_offset_never_plus_15 [OF unit_rng_rnd1,
      of 1 insertion_sort initial_state round2]
  from th have 1: "- 15 \<le> hueVariation rnd1 1" "hueVariation rnd1 1 \<le> 14"
    by simp_all
  from th permuting_insertion_sort mount_round2 decoy_in_round2
  have 2: "\<forall>s l. ''hsl(183, 85%, 50%)'' \<noteq> hsl ((baseHue_of rnd1 initial_state + 15) mod 360) s l"
    by blast
  show ?thesis
    by (intro conjI unit_rng_rnd1 permuting_insertion_sort mount_round2 decoy_in_round2 1 2)
qed

end
